theory Spec2Isabelle
  imports Main
begin

section \<open>Stream interconnect (misoc/interconnect/stream.py)\<close>

text \<open>
  A shallow embedding of the stream components: endpoint layouts, the FIFO wrapper with
  watermark burst control, the width converters and the buffer stage. Registers are
  fields of a state record, combinational signals are functions of the state and of the
  inputs of the cycle, and a clock edge is a step function.
\<close>

subsection \<open>Errors raised at construction time\<close>

datatype error = ValueError string | ZeroDivisionError

subsection \<open>Endpoint layouts\<close>

text \<open>
  A payload layout is a list of fields \<open>(name, width)\<close> or \<open>(name, sub-layout)\<close>.
  The width of a leaf is an integer or a pair \<open>(width, signed)\<close>.
\<close>

datatype width = Width int | WidthSigned int bool

datatype field = Field string width | SubLayout string "field list"

datatype direction = DIR_M_TO_S | DIR_S_TO_M

datatype rfield = RField string width direction | RSub string "rfield list"

fun field_name :: "field \<Rightarrow> string" where
  "field_name (Field n w) = n"
| "field_name (SubLayout n l) = n"

fun make_m2s :: "field list \<Rightarrow> rfield list" where
  "make_m2s [] = []"
| "make_m2s (Field n w # fs) = RField n w DIR_M_TO_S # make_m2s fs"
| "make_m2s (SubLayout n l # fs) = RSub n (make_m2s l) # make_m2s fs"

definition reserved :: "string set" where
  "reserved = {''stb'', ''ack'', ''payload'', ''last'', ''eop'', ''description''}"

text \<open>The loop of \<open>get_full_layout\<close> over the payload layout, with its set \<open>attributed\<close>.\<close>

fun attribute_fields :: "string set \<Rightarrow> field list \<Rightarrow> error + string set" where
  "attribute_fields attributed [] = Inr attributed"
| "attribute_fields attributed (f # fs) =
     (if field_name f \<in> attributed
      then Inl (ValueError (field_name f @ '' already attributed in payload layout''))
      else if field_name f \<in> reserved
      then Inl (ValueError (field_name f @ '' cannot be used in endpoint layout''))
      else attribute_fields (insert (field_name f) attributed) fs)"

definition get_full_layout :: "field list \<Rightarrow> error + rfield list" where
  "get_full_layout payload_layout =
     (case attribute_fields {} payload_layout of
        Inl e \<Rightarrow> Inl e
      | Inr attributed \<Rightarrow>
          Inr [RField ''stb'' (Width 1) DIR_M_TO_S,
               RField ''ack'' (Width 1) DIR_S_TO_M,
               RField ''last'' (Width 1) DIR_M_TO_S,
               RField ''eop'' (Width 1) DIR_M_TO_S,
               RSub ''payload'' (make_m2s payload_layout)])"

text \<open>
  \<open>Endpoint.__init__\<close> on a layout: the description is built from the layout and the
  record from its full layout; an error of \<open>get_full_layout\<close> aborts the construction.
\<close>

record endpoint =
  description :: "field list"
  full_layout :: "rfield list"

definition Endpoint :: "field list \<Rightarrow> error + endpoint" where
  "Endpoint layout =
     (case get_full_layout layout of
        Inl e \<Rightarrow> Inl e
      | Inr full \<Rightarrow> Inr \<lparr>description = layout, full_layout = full\<rparr>)"

subsection \<open>Choice of the width converter\<close>

datatype converter_cls = DownConverter | UpConverter | IdentityConverter

text \<open>
  \<open>_get_converter_ratio\<close>. Python's \<open>%\<close> and \<open>//\<close> on integers round towards minus
  infinity, as \<open>mod\<close> and \<open>div\<close> on \<open>int\<close> do, and raise ZeroDivisionError on a zero
  divisor.
\<close>

definition get_converter_ratio :: "int \<Rightarrow> int \<Rightarrow> error + converter_cls \<times> int" where
  "get_converter_ratio nbits_from nbits_to =
     (if nbits_from > nbits_to then
        (if nbits_to = 0 then Inl ZeroDivisionError
         else if nbits_from mod nbits_to \<noteq> 0 then Inl (ValueError ''Ratio must be an int'')
         else Inr (DownConverter, nbits_from div nbits_to))
      else if nbits_from < nbits_to then
        (if nbits_from = 0 then Inl ZeroDivisionError
         else if nbits_to mod nbits_from \<noteq> 0 then Inl (ValueError ''Ratio must be an int'')
         else Inr (UpConverter, nbits_to div nbits_from))
      else Inr (IdentityConverter, 1))"

subsection \<open>Signals of an endpoint\<close>

text \<open>
  The values an endpoint carries from master to slave in one cycle (\<open>stb\<close>, \<open>last\<close>,
  \<open>eop\<close> and the payload), the inputs a component with one sink and one source sees in
  a cycle, and the outputs it drives. \<open>last\<close> is written \<open>last_flag\<close>.
\<close>

record 'p signals =
  stb :: bool
  last_flag :: bool
  eop :: bool
  payload :: 'p

record 'p port_in =
  sink :: "'p signals"
  source_ack :: bool

record 'p port_out =
  source :: "'p signals"
  sink_ack :: bool

text \<open>
  The number of bits of a \<open>Signal(max=m)\<close> is \<open>bits_for (m - 1)\<close>: the length of the
  binary numeral, one bit for 0.
\<close>

fun bits_for :: "nat \<Rightarrow> nat" where
  "bits_for n = (if n < 2 then 1 else Suc (bits_for (n div 2)))"

declare bits_for.simps [simp del]

text \<open>Increment and decrement of an unsigned register of \<open>w\<close> bits.\<close>

definition incr :: "nat \<Rightarrow> nat \<Rightarrow> nat" where
  "incr w x = (x + 1) mod 2 ^ w"

definition decr :: "nat \<Rightarrow> nat \<Rightarrow> nat" where
  "decr w x = (x + 2 ^ w - 1) mod 2 ^ w"

subsection \<open>Buffer\<close>

text \<open>
  The state of the buffer is its source register. \<open>sink.ack\<close> is the wire
  \<open>source.ack\<close>; on a clock edge with \<open>source.ack\<close> the register takes \<open>stb\<close>,
  \<open>last\<close>, \<open>eop\<close> and the payload of the sink (\<open>connect\<close> with \<open>ack\<close> omitted).
\<close>

definition Buffer_sink_ack :: "'p port_in \<Rightarrow> bool" where
  "Buffer_sink_ack i = source_ack i"

definition Buffer_out :: "'p signals \<Rightarrow> 'p port_in \<Rightarrow> 'p port_out" where
  "Buffer_out reg i = \<lparr>source = reg, sink_ack = Buffer_sink_ack i\<rparr>"

definition Buffer_step :: "'p signals \<Rightarrow> 'p port_in \<Rightarrow> 'p signals" where
  "Buffer_step reg i = (if source_ack i then sink i else reg)"

fun Buffer_run :: "'p signals \<Rightarrow> 'p port_in list \<Rightarrow> 'p signals" where
  "Buffer_run reg [] = reg"
| "Buffer_run reg (i # is) = Buffer_run (Buffer_step reg i) is"

subsection \<open>FIFO wrapper\<close>

text \<open>
  Construction parameters of \<open>_FIFOWrapper\<close>: the depth and the two optional
  watermarks.
\<close>

record fifo_cfg =
  depth :: nat
  hi_wm :: "nat option"
  lo_wm :: "nat option"

text \<open>
  The signals the wrapper reads from the queue primitive \<open>self.fifo\<close> in a cycle;
  \<open>dout\<close> is the record \<open>fifo_out\<close> with its fields \<open>payload\<close> and \<open>eop\<close>.
\<close>

record fifo_sig =
  writable :: bool
  readable :: bool
  almost_full :: bool
  almost_empty :: bool
  dout_payload :: nat
  dout_eop :: bool

text \<open>The registers of the burst control.\<close>

record burst =
  transfer_count :: nat
  activated :: bool
  eop_count :: nat
  recv_activated :: bool

definition burst_reset :: "fifo_cfg \<Rightarrow> burst" where
  "burst_reset cfg =
     \<lparr>transfer_count = (case hi_wm cfg of None \<Rightarrow> 0 | Some h \<Rightarrow> h - 1),
      activated = False, eop_count = 0, recv_activated = False\<rparr>"

text \<open>
  Combinational signals. Where the source assigns a signal twice, the later assignment
  (the one of the watermark block) holds.
\<close>

definition FIFO_sink_ack :: "fifo_cfg \<Rightarrow> burst \<Rightarrow> fifo_sig \<Rightarrow> bool" where
  "FIFO_sink_ack cfg b f =
     (if lo_wm cfg \<noteq> None then writable f \<and> (almost_empty f \<or> recv_activated b)
      else writable f)"

definition fifo_we :: "fifo_cfg \<Rightarrow> burst \<Rightarrow> fifo_sig \<Rightarrow> nat port_in \<Rightarrow> bool" where
  "fifo_we cfg b f i =
     (if lo_wm cfg \<noteq> None then stb (sink i) \<and> FIFO_sink_ack cfg b f
      else stb (sink i))"

definition source_stb :: "fifo_cfg \<Rightarrow> burst \<Rightarrow> fifo_sig \<Rightarrow> bool" where
  "source_stb cfg b f =
     (if hi_wm cfg \<noteq> None then readable f \<and> (almost_full f \<or> activated b)
      else readable f)"

definition fifo_re :: "fifo_cfg \<Rightarrow> burst \<Rightarrow> fifo_sig \<Rightarrow> nat port_in \<Rightarrow> bool" where
  "fifo_re cfg b f i =
     (if hi_wm cfg \<noteq> None then source_stb cfg b f \<and> source_ack i
      else source_ack i)"

definition do_write :: "fifo_cfg \<Rightarrow> burst \<Rightarrow> fifo_sig \<Rightarrow> nat port_in \<Rightarrow> bool" where
  "do_write cfg b f i = (fifo_we cfg b f i \<and> writable f)"

definition do_read :: "fifo_cfg \<Rightarrow> burst \<Rightarrow> fifo_sig \<Rightarrow> nat port_in \<Rightarrow> bool" where
  "do_read cfg b f i = (fifo_re cfg b f i \<and> readable f)"

text \<open>Without a high watermark nothing drives \<open>source.last\<close>: it stays 0.\<close>

definition source_last :: "fifo_cfg \<Rightarrow> burst \<Rightarrow> fifo_sig \<Rightarrow> bool" where
  "source_last cfg b f =
     (if hi_wm cfg \<noteq> None then transfer_count b = 0 \<or> dout_eop f else False)"

definition eop_count_next :: "fifo_cfg \<Rightarrow> burst \<Rightarrow> fifo_sig \<Rightarrow> nat port_in \<Rightarrow> nat" where
  "eop_count_next cfg b f i =
     (if eop (sink i) \<and> do_write cfg b f i then
        (if \<not> (dout_eop f \<and> do_read cfg b f i)
         then incr (bits_for (depth cfg)) (eop_count b)
         else eop_count b)
      else if dout_eop f \<and> do_read cfg b f i
      then decr (bits_for (depth cfg)) (eop_count b)
      else eop_count b)"

definition has_pending_eop :: "fifo_cfg \<Rightarrow> burst \<Rightarrow> fifo_sig \<Rightarrow> nat port_in \<Rightarrow> bool" where
  "has_pending_eop cfg b f i = (eop_count_next cfg b f i \<noteq> 0)"

definition transfer_count_ce :: "fifo_cfg \<Rightarrow> burst \<Rightarrow> fifo_sig \<Rightarrow> nat port_in \<Rightarrow> bool" where
  "transfer_count_ce cfg b f i = do_read cfg b f i"

definition transfer_count_rst :: "fifo_cfg \<Rightarrow> burst \<Rightarrow> fifo_sig \<Rightarrow> nat port_in \<Rightarrow> bool" where
  "transfer_count_rst cfg b f i = (do_read cfg b f i \<and> source_last cfg b f)"

definition FIFO_out :: "fifo_cfg \<Rightarrow> burst \<Rightarrow> fifo_sig \<Rightarrow> nat port_out" where
  "FIFO_out cfg b f =
     \<lparr>source = \<lparr>stb = source_stb cfg b f, last_flag = source_last cfg b f,
                 eop = dout_eop f, payload = dout_payload f\<rparr>,
      sink_ack = FIFO_sink_ack cfg b f\<rparr>"

text \<open>
  The clock edge of the burst control. The registers of a watermark block exist only
  when the watermark is given; otherwise they keep their value.
\<close>

definition burst_step :: "fifo_cfg \<Rightarrow> burst \<Rightarrow> fifo_sig \<Rightarrow> nat port_in \<Rightarrow> burst" where
  "burst_step cfg b f i =
     \<lparr>transfer_count =
        (case hi_wm cfg of
           None \<Rightarrow> transfer_count b
         | Some h \<Rightarrow>
             if transfer_count_rst cfg b f i then h - 1
             else if transfer_count_ce cfg b f i
             then decr (bits_for (h - 1)) (transfer_count b)
             else transfer_count b),
      activated =
        (if hi_wm cfg \<noteq> None then
           (if \<not> activated b then almost_full f \<or> (eop (sink i) \<and> do_write cfg b f i)
            else if do_read cfg b f i \<and> source_last cfg b f
            then has_pending_eop cfg b f i
            else activated b)
         else activated b),
      eop_count =
        (if hi_wm cfg \<noteq> None then eop_count_next cfg b f i else eop_count b),
      recv_activated =
        (if lo_wm cfg \<noteq> None then
           (if \<not> recv_activated b
            then almost_empty f \<and> \<not> (do_write cfg b f i \<and> eop (sink i))
            else if recv_activated b \<and>
                    (do_write cfg b f i \<and> (last_flag (sink i) \<or> eop (sink i)))
            then False
            else recv_activated b)
         else recv_activated b)\<rparr>"

subsection \<open>The synchronous queue under the wrapper\<close>






subsection \<open>SyncFIFO: the wrapper around the synchronous queue\<close>







text \<open>A cycle that writes a word, and a cycle in which only the consumer is ready.\<close>

definition push :: "nat \<Rightarrow> bool \<Rightarrow> bool \<Rightarrow> nat port_in" where
  "push w e a = \<lparr>sink = \<lparr>stb = True, last_flag = False, eop = e, payload = w\<rparr>,
                 source_ack = a\<rparr>"




subsection \<open>Bit slices\<close>

unbundle bit_operations_syntax

text \<open>
  A signal of \<open>n\<close> bits is a natural number. \<open>slice n x lo hi\<close> is the value of
  \<open>x[lo:hi]\<close> and \<open>set_slice n x lo hi v\<close> the value of \<open>x\<close> after \<open>x[lo:hi].eq(v)\<close>;
  the bounds of a slice are clipped to the length of the signal, and the assigned value
  is cut to the width of the slice.
\<close>

definition slice :: "nat \<Rightarrow> nat \<Rightarrow> nat \<Rightarrow> nat \<Rightarrow> nat" where
  "slice n x lo hi = take_bit (min hi n - min lo n) (drop_bit (min lo n) x)"

definition set_slice :: "nat \<Rightarrow> nat \<Rightarrow> nat \<Rightarrow> nat \<Rightarrow> nat \<Rightarrow> nat" where
  "set_slice n x lo hi v =
     take_bit (min lo n) x OR push_bit (min lo n) (take_bit (min hi n - min lo n) v)
       OR push_bit (min hi n) (drop_bit (min hi n) x)"

subsection \<open>Width converters\<close>

text \<open>Construction parameters of \<open>_UpConverter\<close> and \<open>_DownConverter\<close>.\<close>

record conv_cfg =
  nbits_from :: nat
  nbits_to :: nat
  ratio :: nat
  reverse :: bool
  report_valid_token_count :: bool

text \<open>The slot \<open>n\<close> of the wide word that belongs to the counter value \<open>i\<close>.\<close>

definition slot :: "conv_cfg \<Rightarrow> nat \<Rightarrow> nat" where
  "slot cfg i = (if reverse cfg then ratio cfg - i - 1 else i)"

subsubsection \<open>Up-converter\<close>

text \<open>
  The registers of the up-converter: \<open>demux\<close>, \<open>strobe_all\<close>, and the registered
  fields \<open>eop\<close>, \<open>data\<close> and \<open>valid_token_count\<close> of the source.
\<close>

record up_state =
  demux :: nat
  strobe_all :: bool
  source_eop :: bool
  source_data :: nat
  source_valid_token_count :: nat

definition Up_reset :: up_state where
  "Up_reset = \<lparr>demux = 0, strobe_all = False, source_eop = False, source_data = 0,
               source_valid_token_count = 0\<rparr>"

definition Up_sink_ack :: "up_state \<Rightarrow> nat port_in \<Rightarrow> bool" where
  "Up_sink_ack s i = (\<not> strobe_all s \<or> source_ack i)"

definition load_part :: "up_state \<Rightarrow> nat port_in \<Rightarrow> bool" where
  "load_part s i = (stb (sink i) \<and> Up_sink_ack s i)"

definition demux_last :: "conv_cfg \<Rightarrow> up_state \<Rightarrow> nat port_in \<Rightarrow> bool" where
  "demux_last cfg s i = (demux s = ratio cfg - 1 \<or> eop (sink i))"

text \<open>The source shows the registers; \<open>source.last\<close> is the constant 1.\<close>

definition Up_source :: "up_state \<Rightarrow> nat signals" where
  "Up_source s =
     \<lparr>stb = strobe_all s, last_flag = True, eop = source_eop s, payload = source_data s\<rparr>"

definition Up_out :: "up_state \<Rightarrow> nat port_in \<Rightarrow> nat port_out" where
  "Up_out s i = \<lparr>source = Up_source s, sink_ack = Up_sink_ack s i\<rparr>"

definition Up_valid_token_count :: "conv_cfg \<Rightarrow> up_state \<Rightarrow> nat option" where
  "Up_valid_token_count cfg s =
     (if report_valid_token_count cfg then Some (source_valid_token_count s) else None)"

text \<open>
  The clock edge. The synchronous statements run in the order of the source, a later
  assignment to a register overriding an earlier one: \<open>strobe_all\<close> is cleared under
  \<open>source.ack\<close> and then set when a group is completed. The \<open>Case\<close> on \<open>demux\<close> has no
  default: a counter value that is no slot index writes nothing.
\<close>

definition Up_step :: "conv_cfg \<Rightarrow> up_state \<Rightarrow> nat port_in \<Rightarrow> up_state" where
  "Up_step cfg s i =
     \<lparr>demux =
        (if load_part s i
         then (if demux_last cfg s i then 0 else incr (bits_for (ratio cfg - 1)) (demux s))
         else demux s),
      strobe_all =
        (if load_part s i \<and> demux_last cfg s i then True
         else if source_ack i then False
         else strobe_all s),
      source_eop =
        (if strobe_all s \<and> source_ack i then eop (sink i)
         else if stb (sink i) \<and> Up_sink_ack s i then eop (sink i) \<or> source_eop s
         else source_eop s),
      source_data =
        (if load_part s i \<and> demux s < ratio cfg
         then set_slice (nbits_to cfg) (source_data s)
                (slot cfg (demux s) * nbits_from cfg)
                ((slot cfg (demux s) + 1) * nbits_from cfg)
                (payload (sink i))
         else source_data s),
      source_valid_token_count =
        (if report_valid_token_count cfg \<and> load_part s i
         then (demux s + 1) mod 2 ^ bits_for (ratio cfg)
         else source_valid_token_count s)\<rparr>"

fun Up_run :: "conv_cfg \<Rightarrow> up_state \<Rightarrow> nat port_in list \<Rightarrow> up_state" where
  "Up_run cfg s [] = s"
| "Up_run cfg s (i # is) = Up_run cfg (Up_step cfg s i) is"

text \<open>The transfers at the source of the up-converter over a list of cycles.\<close>

fun Up_transfers :: "conv_cfg \<Rightarrow> up_state \<Rightarrow> nat port_in list \<Rightarrow> nat signals list" where
  "Up_transfers cfg s [] = []"
| "Up_transfers cfg s (i # is) =
     (if stb (source (Up_out s i)) \<and> source_ack i then [source (Up_out s i)] else [])
     @ Up_transfers cfg (Up_step cfg s i) is"

subsubsection \<open>Down-converter\<close>

text \<open>
  The only register of the down-converter is \<open>mux\<close>. The \<open>Case\<close> on \<open>mux\<close> of the data
  path has the case of the highest index, \<open>ratio - 1\<close>, as its default.
\<close>

definition Down_last :: "conv_cfg \<Rightarrow> nat \<Rightarrow> bool" where
  "Down_last cfg mux = (mux = ratio cfg - 1)"

definition Down_data :: "conv_cfg \<Rightarrow> nat \<Rightarrow> nat \<Rightarrow> nat" where
  "Down_data cfg mux x =
     (let i = (if mux < ratio cfg then mux else ratio cfg - 1)
      in slice (nbits_from cfg) x (slot cfg i * nbits_to cfg) ((slot cfg i + 1) * nbits_to cfg))"

definition Down_out :: "conv_cfg \<Rightarrow> nat \<Rightarrow> nat port_in \<Rightarrow> nat port_out" where
  "Down_out cfg mux i =
     \<lparr>source = \<lparr>stb = stb (sink i),
                 last_flag = (last_flag (sink i) \<and> Down_last cfg mux),
                 eop = (eop (sink i) \<and> Down_last cfg mux),
                 payload = Down_data cfg mux (payload (sink i))\<rparr>,
      sink_ack = (Down_last cfg mux \<and> source_ack i)\<rparr>"

definition Down_valid_token_count :: "conv_cfg \<Rightarrow> nat \<Rightarrow> nat option" where
  "Down_valid_token_count cfg mux =
     (if report_valid_token_count cfg then Some (if Down_last cfg mux then 1 else 0)
      else None)"

definition Down_step :: "conv_cfg \<Rightarrow> nat \<Rightarrow> nat port_in \<Rightarrow> nat" where
  "Down_step cfg mux i =
     (if stb (sink i) \<and> source_ack i
      then (if Down_last cfg mux then 0 else incr (bits_for (ratio cfg - 1)) mux)
      else mux)"

fun Down_run :: "conv_cfg \<Rightarrow> nat \<Rightarrow> nat port_in list \<Rightarrow> nat" where
  "Down_run cfg mux [] = mux"
| "Down_run cfg mux (i # is) = Down_run cfg (Down_step cfg mux i) is"

text \<open>
  The cycles with a transfer at the source of the down-converter: what the converter
  drives in such a cycle, with the reported count.
\<close>

fun Down_transfers ::
  "conv_cfg \<Rightarrow> nat \<Rightarrow> nat port_in list \<Rightarrow> (nat port_out \<times> nat option) list" where
  "Down_transfers cfg mux [] = []"
| "Down_transfers cfg mux (i # is) =
     (if stb (source (Down_out cfg mux i)) \<and> source_ack i
      then [(Down_out cfg mux i, Down_valid_token_count cfg mux)] else [])
     @ Down_transfers cfg (Down_step cfg mux i) is"

subsection \<open>An up-converter feeding a down-converter\<close>

text \<open>
  The up-converter from \<open>w\<close> to \<open>r * w\<close> bits and the down-converter from \<open>r * w\<close> to
  \<open>w\<close> bits, as \<open>Converter\<close> builds them, with the same \<open>reverse\<close> flag.
\<close>

definition up_cfg :: "nat \<Rightarrow> nat \<Rightarrow> bool \<Rightarrow> conv_cfg" where
  "up_cfg w r rv = \<lparr>nbits_from = w, nbits_to = r * w, ratio = r, reverse = rv,
                      report_valid_token_count = False\<rparr>"

definition down_cfg :: "nat \<Rightarrow> nat \<Rightarrow> bool \<Rightarrow> conv_cfg" where
  "down_cfg w r rv = \<lparr>nbits_from = r * w, nbits_to = w, ratio = r, reverse = rv,
                        report_valid_token_count = False\<rparr>"

text \<open>
  The source of the up-converter is connected to the sink of the down-converter. A
  producer holds the words still to be sent, each with its \<open>eop\<close> flag, and offers the
  first of them in the cycles in which it is willing to; the consumer collects the
  payloads of the transfers at the source of the down-converter. A cycle is given by
  two flags: the producer offers, the consumer is ready.
\<close>

record roundtrip =
  pending :: "(nat \<times> bool) list"
  up :: up_state
  mux_reg :: nat
  emitted :: "nat list"

definition offer :: "(nat \<times> bool) list \<Rightarrow> bool \<Rightarrow> nat signals" where
  "offer xs v =
     (case xs of
        [] \<Rightarrow> \<lparr>stb = False, last_flag = False, eop = False, payload = 0\<rparr>
      | (x, e) # rest \<Rightarrow>
          if v then \<lparr>stb = True, last_flag = False, eop = e, payload = x\<rparr>
          else \<lparr>stb = False, last_flag = False, eop = False, payload = 0\<rparr>)"

definition RT_reset :: "(nat \<times> bool) list \<Rightarrow> roundtrip" where
  "RT_reset xs = \<lparr>pending = xs, up = Up_reset, mux_reg = 0, emitted = []\<rparr>"

definition RT_step :: "nat \<Rightarrow> nat \<Rightarrow> bool \<Rightarrow> roundtrip \<Rightarrow> bool \<times> bool \<Rightarrow> roundtrip" where
  "RT_step w r rv st c =
     (let d_in = \<lparr>sink = Up_source (up st), source_ack = snd c\<rparr>;
          d_out = Down_out (down_cfg w r rv) (mux_reg st) d_in;
          u_in = \<lparr>sink = offer (pending st) (fst c), source_ack = sink_ack d_out\<rparr>;
          u_out = Up_out (up st) u_in
      in \<lparr>pending = (if stb (sink u_in) \<and> sink_ack u_out then tl (pending st)
                      else pending st),
          up = Up_step (up_cfg w r rv) (up st) u_in,
          mux_reg = Down_step (down_cfg w r rv) (mux_reg st) d_in,
          emitted = emitted st @
            (if stb (source d_out) \<and> snd c then [payload (source d_out)] else [])\<rparr>)"

fun RT_run :: "nat \<Rightarrow> nat \<Rightarrow> bool \<Rightarrow> roundtrip \<Rightarrow> (bool \<times> bool) list \<Rightarrow> roundtrip" where
  "RT_run w r rv st [] = st"
| "RT_run w r rv st (c # cs) = RT_run w r rv (RT_step w r rv st c) cs"

text \<open>
  No early \<open>eop\<close>: a word with \<open>eop\<close> is the last of a group of \<open>r\<close>. The words fit
  into \<open>w\<close> bits.
\<close>

definition no_early_eop :: "nat \<Rightarrow> (nat \<times> bool) list \<Rightarrow> bool" where
  "no_early_eop r xs \<longleftrightarrow> (\<forall>k < length xs. snd (xs ! k) \<longrightarrow> r dvd Suc k)"

definition fits :: "nat \<Rightarrow> (nat \<times> bool) list \<Rightarrow> bool" where
  "fits w xs \<longleftrightarrow> (\<forall>k < length xs. fst (xs ! k) < 2 ^ w)"

text \<open>
  The sub-word of the wide register that belongs to the counter value \<open>k\<close>, and the
  invariant of the composition: \<open>n\<close> words have been accepted; while a wide word is
  presented it holds the last \<open>r\<close> of them and the first \<open>mux\<close> of these have been
  emitted; otherwise every complete group has been emitted and the register holds the
  words of the group under construction.
\<close>

definition subword :: "nat \<Rightarrow> nat \<Rightarrow> bool \<Rightarrow> nat \<Rightarrow> nat \<Rightarrow> nat" where
  "subword w r rv x k =
     slice (r * w) x (slot (up_cfg w r rv) k * w) ((slot (up_cfg w r rv) k + 1) * w)"

definition accepted :: "(nat \<times> bool) list \<Rightarrow> roundtrip \<Rightarrow> nat" where
  "accepted xs st = length xs - length (pending st)"

definition rt_inv :: "nat \<Rightarrow> nat \<Rightarrow> bool \<Rightarrow> (nat \<times> bool) list \<Rightarrow> roundtrip \<Rightarrow> bool" where
  "rt_inv w r rv xs st \<longleftrightarrow>
     (let n = accepted xs st in
      length (pending st) \<le> length xs \<and> pending st = drop n xs \<and>
      demux (up st) = n mod r \<and>
      (if strobe_all (up st)
       then r \<le> n \<and> n mod r = 0 \<and> mux_reg st < r \<and>
            emitted st = take (n - r + mux_reg st) (map fst xs) \<and>
            (\<forall>k < r. subword w r rv (source_data (up st)) k = fst (xs ! (n - r + k)))
       else mux_reg st = 0 \<and>
            emitted st = take (n - n mod r) (map fst xs) \<and>
            (\<forall>k < n mod r.
               subword w r rv (source_data (up st)) k = fst (xs ! (n - n mod r + k)))))"

text \<open>
  The number of words still to be accepted plus the number of words of complete groups
  still to be emitted.
\<close>

definition backlog :: "nat \<Rightarrow> (nat \<times> bool) list \<Rightarrow> roundtrip \<Rightarrow> nat" where
  "backlog r xs st =
     length (pending st) + ((length xs - length xs mod r) - length (emitted st))"

text \<open>
  While no output word is presented, the \<open>eop\<close> register of the up-converter is clear.
\<close>

definition eop_settled :: "up_state \<Rightarrow> bool" where
  "eop_settled s \<longleftrightarrow> (\<not> strobe_all s \<longrightarrow> \<not> source_eop s)"

section \<open>Properties\<close>

subsection \<open>Endpoint layouts\<close>

lemma attribute_fields_Inr_iff:
  "(\<exists>a. attribute_fields attributed fs = Inr a) \<longleftrightarrow>
     distinct (map field_name fs) \<and>
     set (map field_name fs) \<inter> (attributed \<union> reserved) = {}"
  by (induction fs arbitrary: attributed) auto

lemma get_full_layout_Inr_iff:
  "(\<exists>l. get_full_layout fs = Inr l) \<longleftrightarrow>
     distinct (map field_name fs) \<and> set (map field_name fs) \<inter> reserved = {}"
proof -
  have "(\<exists>l. get_full_layout fs = Inr l) \<longleftrightarrow> (\<exists>a. attribute_fields {} fs = Inr a)"
    by (auto simp: get_full_layout_def split: sum.splits)
  then show ?thesis
    by (simp add: attribute_fields_Inr_iff)
qed

lemma Endpoint_Inl_iff:
  "(\<exists>e. Endpoint fs = Inl e) \<longleftrightarrow>
     \<not> distinct (map field_name fs) \<or> set (map field_name fs) \<inter> reserved \<noteq> {}"
proof -
  have "(\<exists>e. Endpoint fs = Inl e) \<longleftrightarrow> \<not> (\<exists>l. get_full_layout fs = Inr l)"
    by (cases "get_full_layout fs") (auto simp: Endpoint_def)
  then show ?thesis
    by (simp add: get_full_layout_Inr_iff)
qed

text \<open>
  Claim C6. Building an endpoint from a payload layout raises an error whenever two
  fields of the layout have the same name, and whenever a field is named like one of the
  control signals: \<open>stb\<close> (valid), \<open>ack\<close> (ready), \<open>payload\<close>, \<open>last\<close>, \<open>eop\<close>. The
  source names the valid and ready signals \<open>stb\<close> and \<open>ack\<close>.
\<close>

theorem Endpoint_rejects_duplicate_and_control_names:
  "(\<not> distinct (map field_name fs) \<longrightarrow> (\<exists>e. Endpoint fs = Inl e)) \<and>
   (\<forall>n \<in> {''stb'', ''ack'', ''payload'', ''last'', ''eop''}.
      n \<in> set (map field_name fs) \<longrightarrow> (\<exists>e. Endpoint fs = Inl e))"
proof -
  have "{''stb'', ''ack'', ''payload'', ''last'', ''eop''} \<subseteq> reserved"
    by (simp add: reserved_def)
  then show ?thesis
    unfolding Endpoint_Inl_iff by blast
qed

theorem Endpoint_rejects_duplicate_and_control_names_witness:
  "(\<exists>e. Endpoint [Field ''data'' (Width 8), Field ''data'' (Width 4)] = Inl e) \<and>
   (\<exists>e. Endpoint [Field ''data'' (Width 8), Field ''stb'' (Width 1)] = Inl e) \<and>
   (\<exists>e. Endpoint [Field ''ack'' (Width 1)] = Inl e) \<and>
   (\<exists>e. Endpoint [SubLayout ''payload'' [Field ''data'' (Width 8)]] = Inl e) \<and>
   (\<exists>e. Endpoint [Field ''last'' (Width 1)] = Inl e) \<and>
   (\<exists>e. Endpoint [Field ''eop'' (Width 1)] = Inl e)"
  using Endpoint_rejects_duplicate_and_control_names
          [of "[Field ''data'' (Width 8), Field ''data'' (Width 4)]"]
        Endpoint_rejects_duplicate_and_control_names
          [of "[Field ''data'' (Width 8), Field ''stb'' (Width 1)]"]
        Endpoint_rejects_duplicate_and_control_names [of "[Field ''ack'' (Width 1)]"]
        Endpoint_rejects_duplicate_and_control_names
          [of "[SubLayout ''payload'' [Field ''data'' (Width 8)]]"]
        Endpoint_rejects_duplicate_and_control_names [of "[Field ''last'' (Width 1)]"]
        Endpoint_rejects_duplicate_and_control_names [of "[Field ''eop'' (Width 1)]"]
  by simp

text \<open>
  The names \<open>valid\<close> and \<open>ready\<close> themselves name no signal of the source: a payload
  field may be called so.
\<close>

lemma Endpoint_accepts_valid_ready:
  "\<exists>ep. Endpoint [Field ''valid'' (Width 1), Field ''ready'' (Width 1)] = Inr ep"
  by (simp add: Endpoint_def get_full_layout_def reserved_def)

text \<open>
  Claim C10. Building an endpoint from a payload layout with a field named
  \<open>description\<close> raises an error: the name is in the reserved set of the source.
\<close>

theorem Endpoint_rejects_description:
  "''description'' \<in> set (map field_name fs) \<Longrightarrow> \<exists>e. Endpoint fs = Inl e"
proof -
  assume "''description'' \<in> set (map field_name fs)"
  moreover have "''description'' \<in> reserved"
    by (simp add: reserved_def)
  ultimately show ?thesis
    unfolding Endpoint_Inl_iff by blast
qed

theorem Endpoint_rejects_description_witness:
  "Endpoint [Field ''data'' (Width 8), Field ''description'' (Width 1)] =
     Inl (ValueError ''description cannot be used in endpoint layout'')"
  using Endpoint_rejects_description
          [of "[Field ''data'' (Width 8), Field ''description'' (Width 1)]"]
  by (simp add: Endpoint_def get_full_layout_def reserved_def)

subsection \<open>Choice of the width converter\<close>

lemma get_converter_ratio_down:
  "b < a \<Longrightarrow> get_converter_ratio a b =
     (if b dvd a then Inr (DownConverter, a div b)
      else if b = 0 then Inl ZeroDivisionError
      else Inl (ValueError ''Ratio must be an int''))"
  by (auto simp: get_converter_ratio_def mod_eq_0_iff_dvd)

lemma get_converter_ratio_up:
  "a < b \<Longrightarrow> get_converter_ratio a b =
     (if a dvd b then Inr (UpConverter, b div a)
      else if a = 0 then Inl ZeroDivisionError
      else Inl (ValueError ''Ratio must be an int''))"
  by (auto simp: get_converter_ratio_def mod_eq_0_iff_dvd)

lemma get_converter_ratio_same:
  "get_converter_ratio a a = Inr (IdentityConverter, 1)"
  by (simp add: get_converter_ratio_def)

text \<open>
  Claim C7. With different widths, the choice of the converter raises an error if and
  only if the larger width is not an integer multiple of the smaller one; otherwise it
  gives the down-converter with ratio \<open>nbits_from / nbits_to\<close> when
  \<open>nbits_from > nbits_to\<close> and the up-converter with ratio \<open>nbits_to / nbits_from\<close> when
  \<open>nbits_from < nbits_to\<close>, the ratio being exact. With equal widths it gives the
  identity converter with ratio 1.
\<close>

theorem get_converter_ratio_spec:
  "(n_from \<noteq> n_to \<longrightarrow>
      ((\<exists>e. get_converter_ratio n_from n_to = Inl e) \<longleftrightarrow>
         \<not> min n_from n_to dvd max n_from n_to)) \<and>
   (n_from > n_to \<and> n_to dvd n_from \<longrightarrow>
      get_converter_ratio n_from n_to = Inr (DownConverter, n_from div n_to) \<and>
      (n_from div n_to) * n_to = n_from) \<and>
   (n_from < n_to \<and> n_from dvd n_to \<longrightarrow>
      get_converter_ratio n_from n_to = Inr (UpConverter, n_to div n_from) \<and>
      (n_to div n_from) * n_from = n_to) \<and>
   (n_from = n_to \<longrightarrow>
      get_converter_ratio n_from n_to = Inr (IdentityConverter, 1))"
proof (cases n_from n_to rule: linorder_cases)
  case less
  then show ?thesis by (simp add: get_converter_ratio_up min_def max_def)
next
  case equal
  then show ?thesis by (simp add: get_converter_ratio_same)
next
  case greater
  then show ?thesis by (simp add: get_converter_ratio_down min_def max_def)
qed

theorem get_converter_ratio_spec_witness:
  "get_converter_ratio 32 8 = Inr (DownConverter, 4) \<and>
   get_converter_ratio 8 32 = Inr (UpConverter, 4) \<and>
   get_converter_ratio 8 8 = Inr (IdentityConverter, 1) \<and>
   (\<exists>e. get_converter_ratio 32 12 = Inl e) \<and>
   (\<exists>e. get_converter_ratio 12 32 = Inl e)"
  using get_converter_ratio_spec [of 32 8] get_converter_ratio_spec [of 8 32]
        get_converter_ratio_spec [of 8 8] get_converter_ratio_spec [of 32 12]
        get_converter_ratio_spec [of 12 32]
  by simp

subsection \<open>Buffer\<close>

lemma Buffer_run_stalled:
  "\<forall>i \<in> set stalls. \<not> source_ack i \<Longrightarrow> Buffer_run reg stalls = reg"
  by (induction stalls arbitrary: reg) (auto simp: Buffer_step_def)

text \<open>
  Claim C9. In every cycle \<open>sink.ack\<close> of the buffer equals \<open>source.ack\<close>. A clock edge
  with \<open>source.ack\<close> low leaves the output register (\<open>stb\<close>, \<open>last\<close>, \<open>eop\<close>, payload)
  as it is. So when a cycle with \<open>source.ack\<close> high is followed by any number of cycles
  with \<open>source.ack\<close> low, the register presented afterwards, also in the cycle in which
  \<open>source.ack\<close> is raised again, holds what the sink carried in that last cycle with
  \<open>source.ack\<close> high, whatever the sink carried during the stall.
\<close>

theorem Buffer_holds_during_stall:
  "Buffer_sink_ack i = source_ack i \<and>
   sink_ack (Buffer_out reg i) = source_ack i \<and>
   (\<not> source_ack i \<longrightarrow> Buffer_step reg i = reg) \<and>
   (source_ack i \<and> (\<forall>j \<in> set stalls. \<not> source_ack j) \<longrightarrow>
      Buffer_run reg (i # stalls) = sink i \<and>
      source (Buffer_out (Buffer_run reg (i # stalls)) k) = sink i)"
  by (simp add: Buffer_sink_ack_def Buffer_out_def Buffer_step_def Buffer_run_stalled)

theorem Buffer_holds_during_stall_witness:
  "Buffer_run \<lparr>stb = False, last_flag = False, eop = False, payload = 0::nat\<rparr>
     [\<lparr>sink = \<lparr>stb = True, last_flag = False, eop = True, payload = 7\<rparr>, source_ack = True\<rparr>,
      \<lparr>sink = \<lparr>stb = True, last_flag = True, eop = False, payload = 8\<rparr>, source_ack = False\<rparr>,
      \<lparr>sink = \<lparr>stb = False, last_flag = False, eop = False, payload = 9\<rparr>, source_ack = False\<rparr>]
   = \<lparr>stb = True, last_flag = False, eop = True, payload = 7\<rparr>"
  using Buffer_holds_during_stall
    [of "\<lparr>sink = \<lparr>stb = True, last_flag = False, eop = True, payload = 7::nat\<rparr>,
           source_ack = True\<rparr>"
        "\<lparr>stb = False, last_flag = False, eop = False, payload = 0::nat\<rparr>"
        "[\<lparr>sink = \<lparr>stb = True, last_flag = True, eop = False, payload = 8\<rparr>,
           source_ack = False\<rparr>,
          \<lparr>sink = \<lparr>stb = False, last_flag = False, eop = False, payload = 9\<rparr>,
           source_ack = False\<rparr>]"]
  by simp

subsection \<open>FIFO wrapper without watermarks\<close>

text \<open>
  Claim C8. Without watermarks, in every cycle \<open>sink.ack\<close> is the queue's \<open>writable\<close>,
  the queue's write enable is \<open>sink.stb\<close>, \<open>source.stb\<close> is the queue's \<open>readable\<close> and
  the queue's read enable is \<open>source.ack\<close>; the clock edge changes no register of the
  burst control.
\<close>

theorem FIFO_plain_elastic:
  "hi_wm cfg = None \<Longrightarrow> lo_wm cfg = None \<Longrightarrow>
     sink_ack (FIFO_out cfg b f) = writable f \<and>
     fifo_we cfg b f i = stb (sink i) \<and>
     stb (source (FIFO_out cfg b f)) = readable f \<and>
     fifo_re cfg b f i = source_ack i \<and>
     burst_step cfg b f i = b"
  by (simp add: FIFO_out_def FIFO_sink_ack_def fifo_we_def source_stb_def fifo_re_def
      burst_step_def)

theorem FIFO_plain_elastic_witness:
  "sink_ack (FIFO_out \<lparr>depth = 4, hi_wm = None, lo_wm = None\<rparr> (burst_reset \<lparr>depth = 4, hi_wm = None, lo_wm = None\<rparr>)
      \<lparr>writable = True, readable = False, almost_full = False, almost_empty = False,
       dout_payload = 0, dout_eop = False\<rparr>) \<and>
   \<not> stb (source (FIFO_out \<lparr>depth = 4, hi_wm = None, lo_wm = None\<rparr> (burst_reset \<lparr>depth = 4, hi_wm = None, lo_wm = None\<rparr>)
      \<lparr>writable = True, readable = False, almost_full = False, almost_empty = False,
       dout_payload = 0, dout_eop = False\<rparr>))"
  using FIFO_plain_elastic
    [of "\<lparr>depth = 4, hi_wm = None, lo_wm = None\<rparr>"
        "burst_reset \<lparr>depth = 4, hi_wm = None, lo_wm = None\<rparr>"
        "\<lparr>writable = True, readable = False, almost_full = False, almost_empty = False,
          dout_payload = 0, dout_eop = False\<rparr>"
        "\<lparr>sink = \<lparr>stb = True, last_flag = False, eop = False, payload = 0\<rparr>,
          source_ack = True\<rparr>"]
  by simp

subsection \<open>FIFO wrapper with a high watermark\<close>





lemma bits_for_bound: "n < 2 ^ bits_for n"
proof (induction n rule: bits_for.induct)
  case (1 n)
  show ?case
  proof (cases "n < 2")
    case True
    then show ?thesis by (simp add: bits_for.simps [of n])
  next
    case False
    then have "n div 2 < 2 ^ bits_for (n div 2)" using 1 by simp
    then have "n < 2 * 2 ^ bits_for (n div 2)" by linarith
    then show ?thesis using False by (simp add: bits_for.simps [of n])
  qed
qed











subsection \<open>FIFO wrapper with a low watermark\<close>

lemma lo_wm_do_write:
  "lo_wm cfg \<noteq> None \<Longrightarrow>
     do_write cfg b f i \<longleftrightarrow> stb (sink i) \<and> sink_ack (FIFO_out cfg b f)"
  by (auto simp: do_write_def fifo_we_def FIFO_out_def FIFO_sink_ack_def)

text \<open>
  Claim C2. With a low watermark, in every state: \<open>sink.ack\<close> holds only (and exactly)
  when the queue is writable and \<open>almost_empty\<close> or \<open>recv_activated\<close> holds; a transfer
  at the sink (\<open>sink.stb\<close> and \<open>sink.ack\<close>) with \<open>eop\<close> taken while \<open>recv_activated\<close> is
  not set leaves it not set, also when the queue is almost empty; once set,
  \<open>recv_activated\<close> stays set over every clock edge without a transfer at the sink that
  carries \<open>last\<close> or \<open>eop\<close>, and such a transfer clears it.
\<close>

theorem FIFO_lo_wm_recv_activated:
  assumes "lo_wm cfg \<noteq> None"
  shows "(sink_ack (FIFO_out cfg b f) \<longleftrightarrow>
            writable f \<and> (almost_empty f \<or> recv_activated b)) \<and>
         (\<not> recv_activated b \<and> stb (sink i) \<and> sink_ack (FIFO_out cfg b f) \<and> eop (sink i)
            \<longrightarrow> \<not> recv_activated (burst_step cfg b f i)) \<and>
         (recv_activated b \<and>
          \<not> (stb (sink i) \<and> sink_ack (FIFO_out cfg b f) \<and> (last_flag (sink i) \<or> eop (sink i)))
            \<longrightarrow> recv_activated (burst_step cfg b f i)) \<and>
         (recv_activated b \<and>
          stb (sink i) \<and> sink_ack (FIFO_out cfg b f) \<and> (last_flag (sink i) \<or> eop (sink i))
            \<longrightarrow> \<not> recv_activated (burst_step cfg b f i))"
proof -
  have ack: "sink_ack (FIFO_out cfg b f) \<longleftrightarrow>
               writable f \<and> (almost_empty f \<or> recv_activated b)"
    using assms by (simp add: FIFO_out_def FIFO_sink_ack_def)
  have step: "recv_activated (burst_step cfg b f i) =
     (if \<not> recv_activated b
      then almost_empty f \<and> \<not> (do_write cfg b f i \<and> eop (sink i))
      else \<not> (do_write cfg b f i \<and> (last_flag (sink i) \<or> eop (sink i))))"
    using assms by (simp add: burst_step_def)
  show ?thesis
    unfolding step lo_wm_do_write [OF assms] using ack by auto
qed

theorem FIFO_lo_wm_recv_activated_witness:
  "sink_ack (FIFO_out \<lparr>depth = 8, hi_wm = None, lo_wm = Some 4\<rparr>
      \<lparr>transfer_count = 0, activated = False, eop_count = 0, recv_activated = False\<rparr>
      \<lparr>writable = True, readable = False, almost_full = False, almost_empty = True,
       dout_payload = 0, dout_eop = False\<rparr>) \<and>
   \<not> recv_activated (burst_step \<lparr>depth = 8, hi_wm = None, lo_wm = Some 4\<rparr>
      \<lparr>transfer_count = 0, activated = False, eop_count = 0, recv_activated = False\<rparr>
      \<lparr>writable = True, readable = False, almost_full = False, almost_empty = True,
       dout_payload = 0, dout_eop = False\<rparr>
      (push 5 True False))"
  using FIFO_lo_wm_recv_activated
    [of "\<lparr>depth = 8, hi_wm = None, lo_wm = Some 4\<rparr>"
        "\<lparr>transfer_count = 0, activated = False, eop_count = 0, recv_activated = False\<rparr>"
        "\<lparr>writable = True, readable = False, almost_full = False, almost_empty = True,
          dout_payload = 0, dout_eop = False\<rparr>"
        "push 5 True False"]
  by (simp add: push_def)

subsection \<open>Down-converter\<close>

lemma incr_counter: "Suc m < r \<Longrightarrow> incr (bits_for (r - 1)) m = Suc m"
proof -
  assume "Suc m < r"
  then have "Suc m < 2 ^ bits_for (r - 1)"
    using bits_for_bound [of "r - 1"] by simp
  then show ?thesis by (simp add: incr_def)
qed

lemma Down_step_transfer:
  assumes "m < ratio cfg" "stb (sink i)" "source_ack i"
  shows "Down_step cfg m i = (if Suc m = ratio cfg then 0 else Suc m)"
  using assms incr_counter [of m "ratio cfg"]
  by (auto simp: Down_step_def Down_last_def)

lemma Down_transfers_word:
  assumes W: "stb W"
  shows "\<forall>i \<in> set is. sink i = W \<Longrightarrow> m + length (filter source_ack is) \<le> ratio cfg \<Longrightarrow>
     m < ratio cfg \<Longrightarrow>
     Down_transfers cfg m is =
       map (\<lambda>k. (\<lparr>source = \<lparr>stb = True,
                              last_flag = (last_flag W \<and> k = ratio cfg - 1),
                              eop = (eop W \<and> k = ratio cfg - 1),
                              payload = Down_data cfg k (payload W)\<rparr>,
                   sink_ack = (k = ratio cfg - 1)\<rparr>,
                  Down_valid_token_count cfg k))
         [m ..< m + length (filter source_ack is)] \<and>
     Down_run cfg m is = (m + length (filter source_ack is)) mod ratio cfg"
proof (induction "is" arbitrary: m)
  case Nil
  then show ?case by simp
next
  case (Cons i "is")
  have i: "sink i = W" using Cons.prems(1) by simp
  have rest: "\<forall>i \<in> set is. sink i = W" using Cons.prems(1) by simp
  show ?case
  proof (cases "source_ack i")
    case False
    then have "Down_step cfg m i = m" by (simp add: Down_step_def)
    moreover have "m + length (filter source_ack is) \<le> ratio cfg"
      using Cons.prems(2) False by simp
    ultimately show ?thesis
      using Cons.IH [OF rest, of m] False Cons.prems(3) by simp
  next
    case True
    note m = Cons.prems(3)
    show ?thesis
    proof (cases "Suc m = ratio cfg")
      case last: True
      have "Suc (m + length (filter source_ack is)) \<le> ratio cfg"
        using Cons.prems(2) True by simp
      then have none: "filter source_ack is = []"
        using last by (cases "filter source_ack is") simp_all
      have st: "Down_step cfg m i = 0"
        using Down_step_transfer [OF m, of i] i W True last by simp
      have "Down_transfers cfg 0 is = [] \<and> Down_run cfg 0 is = 0"
        using Cons.IH [OF rest, of 0] none m by simp
      moreover have "[m ..< ratio cfg] = [m]"
        unfolding last [symmetric] by simp
      ultimately show ?thesis
        using st True i W last none
        by (simp add: Down_out_def Down_last_def)
    next
      case notlast: False
      have st: "Down_step cfg m i = Suc m"
        using Down_step_transfer [OF m, of i] i W True notlast by simp
      have le: "Suc m + length (filter source_ack is) \<le> ratio cfg"
        using Cons.prems(2) True by simp
      have upt: "[m ..< m + length (filter source_ack (i # is))] =
                   m # [Suc m ..< Suc m + length (filter source_ack is)]"
        using True by (subst upt_rec) simp
      have lt: "Suc m < ratio cfg" using m notlast by simp
      show ?thesis
        unfolding upt using Cons.IH [OF rest le lt] st True i W m notlast
        by (auto simp: Down_out_def Down_last_def)
    qed
  qed
qed

lemma Down_data_exact:
  assumes "nbits_from cfg = ratio cfg * nbits_to cfg" "k < ratio cfg"
  shows "Down_data cfg k x = take_bit (nbits_to cfg) (drop_bit (slot cfg k * nbits_to cfg) x)"
proof -
  have "slot cfg k < ratio cfg" using assms(2) by (auto simp: slot_def)
  then have "Suc (slot cfg k) * nbits_to cfg \<le> ratio cfg * nbits_to cfg"
    and "slot cfg k * nbits_to cfg \<le> ratio cfg * nbits_to cfg"
    by (intro mult_le_mono1; simp)+
  then show ?thesis
    using assms by (simp add: Down_data_def slice_def min_absorb1)
qed

text \<open>
  Claim C4. A down-converter of ratio \<open>r\<close> (at least 1, the wide word having \<open>r\<close> times
  the narrow width) that starts with \<open>mux = 0\<close> and is offered one wide word with \<open>eop\<close>
  and \<open>last\<close> set, over cycles of which exactly \<open>r\<close> have \<open>source.ack\<close> high, makes
  exactly \<open>r\<close> transfers at the source: the \<open>k\<close>-th carries the sub-word of slot \<open>k\<close>
  (counted from the other end when reversed), \<open>source.eop\<close> and \<open>source.last\<close> are set
  on the last one only, \<open>sink.ack\<close> is set on the last one only, and \<open>mux\<close> is 0 again
  afterwards. In every state \<open>sink.ack\<close> implies \<open>mux = r - 1\<close>, and the reported
  \<open>valid_token_count\<close>, when enabled, is 1 if \<open>mux = r - 1\<close> and 0 otherwise.
\<close>

theorem Down_one_word:
  assumes "0 < ratio cfg" and "nbits_from cfg = ratio cfg * nbits_to cfg"
    and "\<forall>i \<in> set is. sink i = \<lparr>stb = True, last_flag = True, eop = True, payload = x\<rparr>"
    and "length (filter source_ack is) = ratio cfg"
  shows "Down_transfers cfg 0 is =
       map (\<lambda>k. (\<lparr>source = \<lparr>stb = True, last_flag = (k = ratio cfg - 1),
                              eop = (k = ratio cfg - 1),
                              payload = take_bit (nbits_to cfg)
                                          (drop_bit (slot cfg k * nbits_to cfg) x)\<rparr>,
                   sink_ack = (k = ratio cfg - 1)\<rparr>,
                  if report_valid_token_count cfg
                  then Some (if k = ratio cfg - 1 then 1 else 0) else None))
         [0 ..< ratio cfg] \<and>
     Down_run cfg 0 is = 0 \<and>
     (\<forall>mux i. sink_ack (Down_out cfg mux i) \<longrightarrow> mux = ratio cfg - 1) \<and>
     (\<forall>mux. report_valid_token_count cfg \<longrightarrow>
        Down_valid_token_count cfg mux = Some (if mux = ratio cfg - 1 then 1 else 0))"
proof -
  let ?W = "\<lparr>stb = True, last_flag = True, eop = True, payload = x\<rparr>"
  have "Down_transfers cfg 0 is =
       map (\<lambda>k. (\<lparr>source = \<lparr>stb = True,
                              last_flag = (last_flag ?W \<and> k = ratio cfg - 1),
                              eop = (eop ?W \<and> k = ratio cfg - 1),
                              payload = Down_data cfg k (payload ?W)\<rparr>,
                   sink_ack = (k = ratio cfg - 1)\<rparr>,
                  Down_valid_token_count cfg k))
         [0 ..< 0 + length (filter source_ack is)] \<and>
     Down_run cfg 0 is = (0 + length (filter source_ack is)) mod ratio cfg"
    using assms(1,3,4) by (intro Down_transfers_word) simp_all
  then have "Down_transfers cfg 0 is =
       map (\<lambda>k. (\<lparr>source = \<lparr>stb = True, last_flag = (k = ratio cfg - 1),
                              eop = (k = ratio cfg - 1),
                              payload = Down_data cfg k x\<rparr>,
                   sink_ack = (k = ratio cfg - 1)\<rparr>,
                  Down_valid_token_count cfg k))
         [0 ..< ratio cfg]" and run: "Down_run cfg 0 is = 0"
    using assms(4) by simp_all
  moreover have "map (\<lambda>k. (\<lparr>source = \<lparr>stb = True, last_flag = (k = ratio cfg - 1),
                              eop = (k = ratio cfg - 1),
                              payload = Down_data cfg k x\<rparr>,
                   sink_ack = (k = ratio cfg - 1)\<rparr>,
                  Down_valid_token_count cfg k))
         [0 ..< ratio cfg] =
       map (\<lambda>k. (\<lparr>source = \<lparr>stb = True, last_flag = (k = ratio cfg - 1),
                              eop = (k = ratio cfg - 1),
                              payload = take_bit (nbits_to cfg)
                                          (drop_bit (slot cfg k * nbits_to cfg) x)\<rparr>,
                   sink_ack = (k = ratio cfg - 1)\<rparr>,
                  if report_valid_token_count cfg
                  then Some (if k = ratio cfg - 1 then 1 else 0) else None))
         [0 ..< ratio cfg]"
    using Down_data_exact [OF assms(2)]
    by (intro map_cong) (simp_all add: Down_valid_token_count_def Down_last_def)
  ultimately show ?thesis
    by (simp add: Down_out_def Down_last_def Down_valid_token_count_def)
qed

theorem Down_one_word_witness:
  "Down_transfers \<lparr>nbits_from = 12, nbits_to = 4, ratio = 3, reverse = True, report_valid_token_count = True\<rparr> 0
     [\<lparr>sink = \<lparr>stb = True, last_flag = True, eop = True, payload = 0xABC\<rparr>, source_ack = True\<rparr>,
      \<lparr>sink = \<lparr>stb = True, last_flag = True, eop = True, payload = 0xABC\<rparr>, source_ack = False\<rparr>,
      \<lparr>sink = \<lparr>stb = True, last_flag = True, eop = True, payload = 0xABC\<rparr>, source_ack = True\<rparr>,
      \<lparr>sink = \<lparr>stb = True, last_flag = True, eop = True, payload = 0xABC\<rparr>, source_ack = True\<rparr>]
   = [(\<lparr>source = \<lparr>stb = True, last_flag = False, eop = False, payload = 0xA\<rparr>, sink_ack = False\<rparr>, Some 0),
      (\<lparr>source = \<lparr>stb = True, last_flag = False, eop = False, payload = 0xB\<rparr>, sink_ack = False\<rparr>, Some 0),
      (\<lparr>source = \<lparr>stb = True, last_flag = True, eop = True, payload = 0xC\<rparr>, sink_ack = True\<rparr>, Some 1)]"
  using Down_one_word [of "\<lparr>nbits_from = 12, nbits_to = 4, ratio = 3, reverse = True, report_valid_token_count = True\<rparr>"
     "[\<lparr>sink = \<lparr>stb = True, last_flag = True, eop = True, payload = 0xABC\<rparr>, source_ack = True\<rparr>,
      \<lparr>sink = \<lparr>stb = True, last_flag = True, eop = True, payload = 0xABC\<rparr>, source_ack = False\<rparr>,
      \<lparr>sink = \<lparr>stb = True, last_flag = True, eop = True, payload = 0xABC\<rparr>, source_ack = True\<rparr>,
      \<lparr>sink = \<lparr>stb = True, last_flag = True, eop = True, payload = 0xABC\<rparr>, source_ack = True\<rparr>]" "0xABC"]
  by (simp add: upt_rec slot_def drop_bit_eq_div take_bit_eq_mod)

subsection \<open>Up-converter: the \<open>eop\<close> of a group\<close>

text \<open>
  An accepted word with \<open>eop\<close> completes its group and sets the \<open>eop\<close> register, and the
  registers keep their value while the group waits for \<open>source.ack\<close>: no \<open>eop\<close> is
  lost.
\<close>

lemma Up_eop_latched:
  "load_part s i \<Longrightarrow> eop (sink i) \<Longrightarrow>
     strobe_all (Up_step cfg s i) \<and> source_eop (Up_step cfg s i)"
  by (auto simp: Up_step_def load_part_def demux_last_def)

lemma Up_stalled:
  "strobe_all s \<Longrightarrow> \<not> source_ack i \<Longrightarrow> Up_step cfg s i = s"
  by (simp add: Up_step_def load_part_def Up_sink_ack_def)

text \<open>
  When the producer drives \<open>eop\<close> only together with \<open>stb\<close>, the \<open>eop\<close> register is
  clear while a group is collected, and the word that completes a group gives the
  group its \<open>eop\<close>.
\<close>

lemma eop_settled_step:
  "eop_settled s \<Longrightarrow> (eop (sink i) \<longrightarrow> stb (sink i)) \<Longrightarrow> eop_settled (Up_step cfg s i)"
  by (auto simp: eop_settled_def Up_step_def load_part_def demux_last_def Up_sink_ack_def)

lemma Up_eop_exact_when_qualified:
  "eop_settled s \<Longrightarrow> load_part s i \<Longrightarrow> demux_last cfg s i \<Longrightarrow>
     source_eop (Up_step cfg s i) = eop (sink i)"
  by (auto simp: eop_settled_def Up_step_def load_part_def demux_last_def Up_sink_ack_def)

text \<open>
  Claim C3 says that on every output transfer of the up-converter \<open>source.eop\<close> is set
  if and only if the input word that completed the group carried \<open>eop\<close>, across any
  interleaving. The source does not do this when \<open>sink.eop\<close> is high without \<open>sink.stb\<close>
  in the cycle of an output transfer: that cycle copies \<open>sink.eop\<close> into the register
  without looking at \<open>sink.stb\<close>, and the words of the next group are or-ed onto it.
  With ratio 2: two words without \<open>eop\<close>, an output transfer during which the idle sink
  shows \<open>eop\<close>, two more words without \<open>eop\<close>, an output transfer. The second transfer
  carries \<open>eop\<close>, though neither 3 nor 4 did.
\<close>

theorem Up_eop_spurious:
  "Up_transfers \<lparr>nbits_from = 4, nbits_to = 8, ratio = 2, reverse = False,
                  report_valid_token_count = False\<rparr> Up_reset
     [\<lparr>sink = \<lparr>stb = True, last_flag = False, eop = False, payload = 1\<rparr>, source_ack = False\<rparr>,
      \<lparr>sink = \<lparr>stb = True, last_flag = False, eop = False, payload = 2\<rparr>, source_ack = False\<rparr>,
      \<lparr>sink = \<lparr>stb = False, last_flag = False, eop = True, payload = 0\<rparr>, source_ack = True\<rparr>,
      \<lparr>sink = \<lparr>stb = True, last_flag = False, eop = False, payload = 3\<rparr>, source_ack = False\<rparr>,
      \<lparr>sink = \<lparr>stb = True, last_flag = False, eop = False, payload = 4\<rparr>, source_ack = False\<rparr>,
      \<lparr>sink = \<lparr>stb = False, last_flag = False, eop = False, payload = 0\<rparr>, source_ack = True\<rparr>]
   = [\<lparr>stb = True, last_flag = True, eop = False, payload = 0x21\<rparr>,
      \<lparr>stb = True, last_flag = True, eop = True, payload = 0x43\<rparr>]"
  by (simp add: Up_reset_def Up_out_def Up_source_def Up_step_def load_part_def demux_last_def
      Up_sink_ack_def slot_def set_slice_def incr_def bits_for.simps)

subsection \<open>Up-converter and down-converter back to back\<close>

lemma slot_less: "k < r \<Longrightarrow> slot (up_cfg w r rv) k < r"
  by (auto simp: slot_def up_cfg_def)

lemma slot_inj: "k < r \<Longrightarrow> j < r \<Longrightarrow> slot (up_cfg w r rv) k = slot (up_cfg w r rv) j \<Longrightarrow> k = j"
  by (auto simp: slot_def up_cfg_def split: if_splits)

lemma bit_slice:
  "bit (slice n x lo hi) k \<longleftrightarrow> k < min hi n - min lo n \<and> bit x (min lo n + k)"
  by (simp add: slice_def bit_simps add.commute)

lemma bit_set_slice:
  "bit (set_slice n x lo hi v) k \<longleftrightarrow>
     (if k < min lo n then bit x k
      else if k < min hi n then bit v (k - min lo n)
      else bit x k)"
  by (auto simp: set_slice_def bit_simps)

lemma slice_set_slice_same:
  "Suc k * w \<le> n \<Longrightarrow>
     slice n (set_slice n x (k * w) (Suc k * w) v) (k * w) (Suc k * w) = take_bit w v"
  by (rule bit_eqI) (auto simp: bit_slice bit_set_slice bit_simps min_def)

lemma slice_set_slice_other:
  assumes k: "Suc k * w \<le> n" and j: "Suc j * w \<le> n" and jk: "j \<noteq> k"
  shows "slice n (set_slice n x (k * w) (Suc k * w) v) (j * w) (Suc j * w) =
           slice n x (j * w) (Suc j * w)"
proof (rule bit_eqI)
  fix i
  have lo: "k * w \<le> n" "j * w \<le> n" using k j by simp_all
  consider "j < k" | "k < j" using jk by linarith
  then have "i < w \<Longrightarrow> j * w + i < k * w \<or> Suc k * w \<le> j * w + i"
  proof cases
    case 1
    then have "Suc j * w \<le> k * w" by (intro mult_le_mono1) simp
    then show "i < w \<Longrightarrow> ?thesis" by simp
  next
    case 2
    then have "Suc k * w \<le> j * w" by (intro mult_le_mono1) simp
    then show "i < w \<Longrightarrow> ?thesis" by simp
  qed
  then show "bit (slice n (set_slice n x (k * w) (Suc k * w) v) (j * w) (Suc j * w)) i =
        bit (slice n x (j * w) (Suc j * w)) i"
    using k j lo by (auto simp: bit_slice bit_set_slice min_absorb1)
qed

lemma subword_set_same:
  assumes "k < r"
  shows "subword w r rv (set_slice (r * w) x (slot (up_cfg w r rv) k * w)
           ((slot (up_cfg w r rv) k + 1) * w) v) k = take_bit w v"
proof -
  have "Suc (slot (up_cfg w r rv) k) * w \<le> r * w"
    using slot_less [OF assms, of w rv] by (intro mult_le_mono1) simp
  then show ?thesis
    unfolding subword_def Suc_eq_plus1 [symmetric] by (rule slice_set_slice_same)
qed

lemma subword_set_other:
  assumes "k < r" "j < r" "j \<noteq> k"
  shows "subword w r rv (set_slice (r * w) x (slot (up_cfg w r rv) k * w)
           ((slot (up_cfg w r rv) k + 1) * w) v) j = subword w r rv x j"
proof -
  have "Suc (slot (up_cfg w r rv) k) * w \<le> r * w"
    using slot_less [OF assms(1), of w rv] by (intro mult_le_mono1) simp
  moreover have "Suc (slot (up_cfg w r rv) j) * w \<le> r * w"
    using slot_less [OF assms(2), of w rv] by (intro mult_le_mono1) simp
  moreover have "slot (up_cfg w r rv) j \<noteq> slot (up_cfg w r rv) k"
    using slot_inj [OF assms(2,1)] assms(3) by blast
  ultimately show ?thesis
    unfolding subword_def Suc_eq_plus1 [symmetric] by (rule slice_set_slice_other)
qed

lemma Down_data_subword:
  "m < r \<Longrightarrow> Down_data (down_cfg w r rv) m x = subword w r rv x m"
  by (simp add: Down_data_def subword_def down_cfg_def up_cfg_def slot_def)

lemma RT_step_fields:
  "pending (RT_step w r rv st c) =
     (if stb (offer (pending st) (fst c)) \<and>
         (\<not> strobe_all (up st) \<or> (mux_reg st = r - 1 \<and> snd c))
      then tl (pending st) else pending st)"
  "mux_reg (RT_step w r rv st c) =
     (if strobe_all (up st) \<and> snd c
      then (if mux_reg st = r - 1 then 0 else incr (bits_for (r - 1)) (mux_reg st))
      else mux_reg st)"
  "emitted (RT_step w r rv st c) = emitted st @
     (if strobe_all (up st) \<and> snd c
      then [Down_data (down_cfg w r rv) (mux_reg st) (source_data (up st))] else [])"
  "up (RT_step w r rv st c) =
     Up_step (up_cfg w r rv) (up st)
       \<lparr>sink = offer (pending st) (fst c), source_ack = (mux_reg st = r - 1 \<and> snd c)\<rparr>"
  by (simp_all add: RT_step_def Let_def Down_out_def Down_step_def Down_last_def Up_out_def
      Up_source_def Up_sink_ack_def down_cfg_def)

lemma rt_invI:
  assumes "n \<le> length xs" "pending st = drop n xs" "demux (up st) = n mod r"
    and "strobe_all (up st) \<Longrightarrow>
           r \<le> n \<and> n mod r = 0 \<and> mux_reg st < r \<and>
           emitted st = take (n - r + mux_reg st) (map fst xs) \<and>
           (\<forall>k < r. subword w r rv (source_data (up st)) k = fst (xs ! (n - r + k)))"
    and "\<not> strobe_all (up st) \<Longrightarrow>
           mux_reg st = 0 \<and> emitted st = take (n - n mod r) (map fst xs) \<and>
           (\<forall>k < n mod r.
              subword w r rv (source_data (up st)) k = fst (xs ! (n - n mod r + k)))"
  shows "rt_inv w r rv xs st"
proof -
  have "accepted xs st = n"
    using assms(1,2) by (simp add: accepted_def)
  then show ?thesis
    using assms unfolding rt_inv_def Let_def by simp
qed

lemma rt_invD:
  assumes "rt_inv w r rv xs st" and "n = accepted xs st"
  shows "n \<le> length xs" "pending st = drop n xs" "demux (up st) = n mod r"
    and "strobe_all (up st) \<Longrightarrow>
           r \<le> n \<and> n mod r = 0 \<and> mux_reg st < r \<and>
           emitted st = take (n - r + mux_reg st) (map fst xs) \<and>
           (\<forall>k < r. subword w r rv (source_data (up st)) k = fst (xs ! (n - r + k)))"
    and "\<not> strobe_all (up st) \<Longrightarrow>
           mux_reg st = 0 \<and> emitted st = take (n - n mod r) (map fst xs) \<and>
           (\<forall>k < n mod r.
              subword w r rv (source_data (up st)) k = fst (xs ! (n - n mod r + k)))"
  using assms unfolding rt_inv_def Let_def by (simp_all add: accepted_def)

lemma dvd_Suc_mod: "2 \<le> r \<Longrightarrow> r dvd Suc n \<longleftrightarrow> n mod r = r - 1"
proof -
  assume r: "2 \<le> (r::nat)"
  then have "Suc (n mod r) = r \<longleftrightarrow> n mod r = r - 1" by auto
  then show ?thesis
    by (simp add: dvd_eq_mod_eq_0 mod_Suc)
qed

lemma Up_step_idle:
  "\<not> stb (sink i) \<Longrightarrow> \<not> strobe_all s \<Longrightarrow> Up_step cfg s i = s"
  by (simp add: Up_step_def load_part_def)

lemma Up_step_hold:
  "strobe_all s \<Longrightarrow> \<not> source_ack i \<Longrightarrow> Up_step cfg s i = s"
  by (simp add: Up_step_def load_part_def Up_sink_ack_def)

lemma offer_idle: "\<not> (v \<and> xs \<noteq> []) \<Longrightarrow> \<not> stb (offer xs v)"
  by (auto simp: offer_def split: list.splits)

lemma offer_word:
  "v \<Longrightarrow> offer ((x, e) # rest) v = \<lparr>stb = True, last_flag = False, eop = e, payload = x\<rparr>"
  by (simp add: offer_def)

lemma rt_inv_step:
  assumes r: "2 \<le> r" and fit: "fits w xs" and ne: "no_early_eop r xs"
    and inv: "rt_inv w r rv xs st"
  shows "rt_inv w r rv xs (RT_step w r rv st c)"
proof -
  define n where "n = accepted xs st"
  define st' where "st' = RT_step w r rv st c"
  note D = rt_invD [OF inv n_def]
  note F = RT_step_fields [of w r rv st c, folded st'_def]
  have r0: "0 < r" "r - 1 \<noteq> 0" using r by simp_all
  have ratio: "ratio (up_cfg w r rv) = r" by (simp add: up_cfg_def)
  show "rt_inv w r rv xs st'"
  proof (cases "strobe_all (up st)")
    case False
    note A = D(5) [OF False]
    have m0: "mux_reg st = 0" using A by simp
    have ack: "\<not> (mux_reg st = r - 1 \<and> snd c)" using m0 r0 by simp
    have mux': "mux_reg st' = 0" using F(2) False m0 by simp
    have em': "emitted st' = emitted st" using F(3) False by simp
    show ?thesis
    proof (cases "fst c \<and> n < length xs")
      case idle: False
      then have "\<not> (fst c \<and> pending st \<noteq> [])" using D(2) by auto
      then have off: "\<not> stb (offer (pending st) (fst c))" by (rule offer_idle)
      have "up st' = up st" unfolding F(4) using off False
        by (simp add: Up_step_idle)
      moreover have "pending st' = pending st" using F(1) off by simp
      ultimately show ?thesis
        using D A mux' em' False by (intro rt_invI [of n]) simp_all
    next
      case load: True
      obtain x e where xe: "xs ! n = (x, e)" by (cases "xs ! n")
      have pend: "pending st = (x, e) # drop (Suc n) xs"
        using D(2) load xe Cons_nth_drop_Suc [of n xs] by simp
      have off: "offer (pending st) (fst c) =
                   \<lparr>stb = True, last_flag = False, eop = e, payload = x\<rparr>"
        unfolding pend using load by (simp add: offer_word)
      have pend': "pending st' = drop (Suc n) xs"
        using F(1) off False pend by simp
      have e: "e \<Longrightarrow> n mod r = r - 1"
        using ne load xe dvd_Suc_mod [OF r, of n] by (auto simp: no_early_eop_def)
      have x: "take_bit w x = x"
        using fit load xe by (auto simp: fits_def take_bit_nat_eq_self_iff)
      define i where "i = \<lparr>sink = offer (pending st) (fst c),
                           source_ack = (mux_reg st = r - 1 \<and> snd c)\<rparr>"
      have lp: "load_part (up st) i"
        using off False by (simp add: load_part_def Up_sink_ack_def i_def)
      have dl: "demux_last (up_cfg w r rv) (up st) i \<longleftrightarrow> n mod r = r - 1"
        using e D(3) off by (auto simp: demux_last_def ratio i_def)
      have lt: "n mod r < r" using r0 by simp
      have data': "source_data (up st') =
          set_slice (r * w) (source_data (up st)) (slot (up_cfg w r rv) (n mod r) * w)
            ((slot (up_cfg w r rv) (n mod r) + 1) * w) x"
        unfolding F(4) i_def [symmetric] using lp D(3) lt off
        by (simp add: Up_step_def ratio i_def) (simp add: up_cfg_def)
      have sub_new: "subword w r rv (source_data (up st')) (n mod r) = fst (xs ! n)"
        unfolding data' using subword_set_same [OF lt] x xe by simp
      have sub_old: "\<And>k. k < n mod r \<Longrightarrow>
          subword w r rv (source_data (up st')) k = fst (xs ! (n - n mod r + k))"
      proof -
        fix k assume k: "k < n mod r"
        then have "k < r" "k \<noteq> n mod r" using lt by simp_all
        then have "subword w r rv (source_data (up st')) k =
                     subword w r rv (source_data (up st)) k"
          unfolding data' using subword_set_other [OF lt] by simp
        then show "subword w r rv (source_data (up st')) k = fst (xs ! (n - n mod r + k))"
          using A k by simp
      qed
      have modle: "n mod r \<le> n" by simp
      show ?thesis
      proof (cases "n mod r = r - 1")
        case True
        have s1: "strobe_all (up st')" "demux (up st') = 0"
          unfolding F(4) i_def [symmetric] using lp dl True by (simp_all add: Up_step_def)
        have Sn: "Suc n mod r = 0" using True dvd_Suc_mod [OF r, of n] by auto
        have rn: "r \<le> Suc n" using Sn r0 by (simp add: mod_eq_0_iff_dvd dvd_imp_le)
        have base: "Suc n - r = n - n mod r" using True modle r0 by simp
        have "\<forall>k < r. subword w r rv (source_data (up st')) k = fst (xs ! (Suc n - r + k))"
        proof (intro allI impI)
          fix k assume k: "k < r"
          show "subword w r rv (source_data (up st')) k = fst (xs ! (Suc n - r + k))"
          proof (cases "k = n mod r")
            case True
            then show ?thesis using sub_new base modle by simp
          next
            case False
            then have "k < n mod r" using k \<open>n mod r = r - 1\<close> by simp
            then show ?thesis using sub_old base by simp
          qed
        qed
        then show ?thesis
          using load pend' s1 Sn rn mux' em' A base r0
          by (intro rt_invI [of "Suc n"]) simp_all
      next
        case False
        have s1: "\<not> strobe_all (up st')" "demux (up st') = Suc (n mod r)"
          unfolding F(4) i_def [symmetric] using lp dl False ack \<open>\<not> strobe_all (up st)\<close>
            incr_counter [of "n mod r" r] lt D(3)
          by (simp_all add: Up_step_def i_def ratio)
        have Sn: "Suc n mod r = Suc (n mod r)" using False lt by (simp add: mod_Suc)
        have base: "Suc n - Suc n mod r = n - n mod r" using Sn modle by simp
        have "\<forall>k < Suc n mod r.
                subword w r rv (source_data (up st')) k = fst (xs ! (Suc n - Suc n mod r + k))"
        proof (intro allI impI)
          fix k assume k: "k < Suc n mod r"
          show "subword w r rv (source_data (up st')) k = fst (xs ! (Suc n - Suc n mod r + k))"
          proof (cases "k = n mod r")
            case True
            then show ?thesis using sub_new base modle by simp
          next
            case False
            then have "k < n mod r" using k Sn by simp
            then show ?thesis using sub_old base by simp
          qed
        qed
        then show ?thesis
          using load pend' s1 Sn mux' em' A base
          by (intro rt_invI [of "Suc n"]) simp_all
      qed
    qed
  next
    case True
    note B = D(4) [OF True]
    have m: "mux_reg st < r" using B by simp
    have n0: "n mod r = 0" and rn: "r \<le> n" using B by simp_all
    show ?thesis
    proof (cases "snd c")
      case False
      have "up st' = up st" unfolding F(4) using True False by (simp add: Up_step_hold)
      moreover have "pending st' = pending st" using F(1) True False by simp
      moreover have "mux_reg st' = mux_reg st" using F(2) False by simp
      moreover have "emitted st' = emitted st" using F(3) False by simp
      ultimately show ?thesis
        using D(1,2,3) B True by (intro rt_invI [of n]) simp_all
    next
      case rdy: True
      have idx: "n - r + mux_reg st < length xs" using m rn D(1) by simp
      have "emitted st' = emitted st @ [subword w r rv (source_data (up st)) (mux_reg st)]"
        using F(3) True rdy Down_data_subword [OF m] by simp
      also have "\<dots> = take (n - r + mux_reg st) (map fst xs) @ [map fst xs ! (n - r + mux_reg st)]"
        using B m idx by simp
      also have "\<dots> = take (Suc (n - r + mux_reg st)) (map fst xs)"
        using idx by (simp add: take_Suc_conv_app_nth)
      finally have em': "emitted st' = take (Suc (n - r + mux_reg st)) (map fst xs)" .
      show ?thesis
      proof (cases "mux_reg st = r - 1")
        case False
        then have Sm: "Suc (mux_reg st) < r" using m by simp
        have "up st' = up st" unfolding F(4) using True False by (simp add: Up_step_hold)
        moreover have "pending st' = pending st" using F(1) True False by simp
        moreover have "mux_reg st' = Suc (mux_reg st)"
          using F(2) True rdy False incr_counter [OF Sm] by simp
        ultimately show ?thesis
          using D(1,2,3) B True em' Sm by (intro rt_invI [of n]) simp_all
      next
        case last: True
        have mux': "mux_reg st' = 0" using F(2) \<open>strobe_all (up st)\<close> rdy last by simp
        have em'': "emitted st' = take n (map fst xs)"
          using em' last rn r0 by simp
        show ?thesis
        proof (cases "fst c \<and> n < length xs")
          case idle: False
          then have "\<not> (fst c \<and> pending st \<noteq> [])" using D(2) by auto
          then have off: "\<not> stb (offer (pending st) (fst c))" by (rule offer_idle)
          have s1: "\<not> strobe_all (up st')" "demux (up st') = demux (up st)"
            "source_data (up st') = source_data (up st)"
            unfolding F(4) using off last rdy by (simp_all add: Up_step_def load_part_def)
          have "pending st' = pending st" using F(1) off by simp
          then show ?thesis
            using D(1,2,3) s1 mux' em'' n0 by (intro rt_invI [of n]) simp_all
        next
          case load: True
          obtain x e where xe: "xs ! n = (x, e)" by (cases "xs ! n")
          have pend: "pending st = (x, e) # drop (Suc n) xs"
            using D(2) load xe Cons_nth_drop_Suc [of n xs] by simp
          have off: "offer (pending st) (fst c) =
                       \<lparr>stb = True, last_flag = False, eop = e, payload = x\<rparr>"
            unfolding pend using load by (simp add: offer_word)
          have pend': "pending st' = drop (Suc n) xs"
            using F(1) off last rdy pend by simp
          have e: "\<not> e"
            using ne load xe dvd_Suc_mod [OF r, of n] n0 r0 by (auto simp: no_early_eop_def)
          have x: "take_bit w x = x"
            using fit load xe by (auto simp: fits_def take_bit_nat_eq_self_iff)
          define i where "i = \<lparr>sink = offer (pending st) (fst c),
                               source_ack = (mux_reg st = r - 1 \<and> snd c)\<rparr>"
          have lp: "load_part (up st) i"
            using off last rdy by (simp add: load_part_def Up_sink_ack_def i_def)
          have dl: "\<not> demux_last (up_cfg w r rv) (up st) i"
            using e D(3) n0 r0 off by (simp add: demux_last_def ratio i_def)
          have d0: "demux (up st) = 0" using D(3) n0 by simp
          have s1: "\<not> strobe_all (up st')" "demux (up st') = Suc 0"
            unfolding F(4) i_def [symmetric] using lp dl last rdy d0 incr_counter [of 0 r] r
            by (simp_all add: Up_step_def i_def ratio)
          have data': "source_data (up st') =
              set_slice (r * w) (source_data (up st)) (slot (up_cfg w r rv) 0 * w)
                ((slot (up_cfg w r rv) 0 + 1) * w) x"
            unfolding F(4) i_def [symmetric] using lp d0 r0 off
            by (simp add: Up_step_def ratio i_def) (simp add: up_cfg_def)
          have sub_new: "subword w r rv (source_data (up st')) 0 = fst (xs ! n)"
            unfolding data' using subword_set_same [OF r0(1)] x xe by simp
          have Sn: "Suc n mod r = Suc 0" using n0 r by (simp add: mod_Suc)
          show ?thesis
            using load pend' s1 Sn mux' em'' sub_new
            by (intro rt_invI [of "Suc n"]) simp_all
        qed
      qed
    qed
  qed
qed

lemma rt_inv_reset: "rt_inv w r rv xs (RT_reset xs)"
  by (intro rt_invI [of 0]) (simp_all add: RT_reset_def Up_reset_def)

lemma rt_inv_run:
  assumes "2 \<le> r" "fits w xs" "no_early_eop r xs"
  shows "rt_inv w r rv xs st \<Longrightarrow> rt_inv w r rv xs (RT_run w r rv st sched)"
  by (induction sched arbitrary: st) (simp_all add: rt_inv_step [OF assms])

lemma rt_inv_emitted_prefix:
  assumes "rt_inv w r rv xs st"
  shows "emitted st = take (length (emitted st)) (map fst xs)"
proof -
  obtain k where "emitted st = take k (map fst xs)"
    using rt_invD(4,5) [OF assms refl] by (cases "strobe_all (up st)") auto
  then show ?thesis by (simp add: min_def)
qed

lemma multiple_le: "r dvd n \<Longrightarrow> n \<le> l \<Longrightarrow> n \<le> l - l mod (r::nat)"
proof -
  assume "r dvd n" "n \<le> l"
  then have "n div r \<le> l div r" "n = r * (n div r)" by (simp_all add: div_le_mono)
  then have "n \<le> r * (l div r)" by (metis mult_le_mono2)
  then show ?thesis by (simp add: minus_mod_eq_mult_div)
qed

lemma backlog_step_le: "backlog r xs (RT_step w r rv st c) \<le> backlog r xs st"
proof -
  have "length (pending (RT_step w r rv st c)) \<le> length (pending st)"
    by (simp add: RT_step_fields(1))
  moreover have "length (emitted st) \<le> length (emitted (RT_step w r rv st c))"
    by (simp add: RT_step_fields(3))
  ultimately show ?thesis
    unfolding backlog_def by linarith
qed

lemma backlog_step_less:
  assumes r: "2 \<le> r" and inv: "rt_inv w r rv xs st" and pos: "0 < backlog r xs st"
  shows "backlog r xs (RT_step w r rv st (True, True)) < backlog r xs st"
proof -
  define n where "n = accepted xs st"
  note D = rt_invD [OF inv n_def]
  note F = RT_step_fields [of w r rv st "(True, True)"]
  have ple: "length (pending (RT_step w r rv st (True, True))) \<le> length (pending st)"
    by (simp add: F(1))
  have ele: "length (emitted st) \<le> length (emitted (RT_step w r rv st (True, True)))"
    by (simp add: F(3))
  show ?thesis
  proof (cases "strobe_all (up st)")
    case True
    note B = D(4) [OF True]
    have "r dvd n" using B by (simp add: mod_eq_0_iff_dvd)
    then have "n \<le> length xs - length xs mod r" using D(1) by (rule multiple_le)
    moreover have "r \<le> n" "mux_reg st < r" using B by simp_all
    then have lt: "n - r + mux_reg st < n" using r by linarith
    moreover note lt
    moreover have "length (emitted st) = n - r + mux_reg st"
      using B D(1) lt by (simp add: min_absorb2)
    ultimately have "length (emitted st) < length xs - length xs mod r" by simp
    moreover have "length (emitted (RT_step w r rv st (True, True))) = Suc (length (emitted st))"
      using F(3) True by simp
    ultimately show ?thesis
      using ple unfolding backlog_def by linarith
  next
    case False
    note A = D(5) [OF False]
    show ?thesis
    proof (cases "n < length xs")
      case True
      then have "pending st = xs ! n # drop (Suc n) xs"
        using D(2) Cons_nth_drop_Suc [of n xs] by simp
      then obtain x e rest where "pending st = (x, e) # rest"
        by (cases "xs ! n") auto
      then have "length (pending (RT_step w r rv st (True, True))) < length (pending st)"
        using F(1) False by (simp add: offer_word)
      then show ?thesis
        using ele unfolding backlog_def by linarith
    next
      case fin: False
      then have n: "n = length xs" using D(1) by simp
      then have "pending st = []" using D(2) by simp
      moreover have "length (emitted st) = length xs - length xs mod r"
        using A n by simp
      ultimately have "backlog r xs st = 0" by (simp add: backlog_def)
      then show ?thesis using pos by simp
    qed
  qed
qed

lemma backlog_run:
  assumes r: "2 \<le> r" and fit: "fits w xs" and ne: "no_early_eop r xs"
  shows "rt_inv w r rv xs st \<Longrightarrow>
     backlog r xs (RT_run w r rv st sched) \<le>
       backlog r xs st - length (filter (\<lambda>c. c = (True, True)) sched)"
proof (induction sched arbitrary: st)
  case Nil
  then show ?case by simp
next
  case (Cons c sched)
  have inv': "rt_inv w r rv xs (RT_step w r rv st c)"
    using Cons.prems by (rule rt_inv_step [OF r fit ne])
  note IH = Cons.IH [OF inv']
  show ?case
  proof (cases "c = (True, True)")
    case True
    have "backlog r xs (RT_step w r rv st c) \<le> backlog r xs st - 1"
      using backlog_step_less [OF r Cons.prems, of ] backlog_step_le [of r xs w rv st c] True
      by (cases "0 < backlog r xs st") auto
    then show ?thesis using IH True by simp
  next
    case False
    then show ?thesis
      using IH backlog_step_le [of r xs w rv st c] by simp
  qed
qed

text \<open>
  Claim C5, amended. For every ratio \<open>r\<close> of at least 2, every width \<open>w\<close> and every
  value of the reversal flag, the up-converter of ratio \<open>r\<close> feeding the down-converter
  of ratio \<open>r\<close> reproduces a sequence of \<open>w\<close>-bit words without early \<open>eop\<close> whose
  length is a multiple of \<open>r\<close>. Whatever the cycles in which the producer offers and
  the consumer is ready, and whatever the length of the sequence, the words emitted are
  a prefix of the sequence: same values, same order, none missing in between, none
  twice. After cycles of which at least twice the length of the sequence have the
  producer offering and the consumer ready, exactly the complete groups of \<open>r\<close> words
  have been emitted, which is the whole sequence when its length is a multiple of \<open>r\<close>.
\<close>

theorem updown_roundtrip:
  assumes "2 \<le> r" and "fits w xs" and "no_early_eop r xs"
  shows "emitted (RT_run w r rv (RT_reset xs) sched) =
           take (length (emitted (RT_run w r rv (RT_reset xs) sched))) (map fst xs) \<and>
         (2 * length xs \<le> length (filter (\<lambda>c. c = (True, True)) sched) \<longrightarrow>
            emitted (RT_run w r rv (RT_reset xs) sched) =
              take (length xs - length xs mod r) (map fst xs) \<and>
            (r dvd length xs \<longrightarrow>
               emitted (RT_run w r rv (RT_reset xs) sched) = map fst xs))"
proof -
  let ?st = "RT_run w r rv (RT_reset xs) sched"
  let ?L = "length xs - length xs mod r"
  have inv: "rt_inv w r rv xs ?st"
    using rt_inv_run [OF assms rt_inv_reset] .
  have pre: "emitted ?st = take (length (emitted ?st)) (map fst xs)"
    using inv by (rule rt_inv_emitted_prefix)
  have "emitted ?st = take ?L (map fst xs)"
    if en: "2 * length xs \<le> length (filter (\<lambda>c. c = (True, True)) sched)"
  proof -
    have "backlog r xs (RT_reset xs) \<le> 2 * length xs"
      by (simp add: backlog_def RT_reset_def)
    then have b0: "backlog r xs ?st = 0"
      using backlog_run [OF assms rt_inv_reset, of rv sched] en by simp
    define n where "n = accepted xs ?st"
    note D = rt_invD [OF inv n_def]
    have "pending ?st = []" using b0 by (simp add: backlog_def)
    then have n: "n = length xs" using D(1,2) by simp
    have ge: "?L \<le> length (emitted ?st)" using b0 unfolding backlog_def by linarith
    show ?thesis
    proof (cases "strobe_all (up ?st)")
      case True
      note B = D(4) [OF True]
      have "r dvd n" using B by (simp add: mod_eq_0_iff_dvd)
      then have "n \<le> ?L" using D(1) by (rule multiple_le)
      moreover have "r \<le> n" "mux_reg ?st < r" using B by simp_all
      then have lt: "n - r + mux_reg ?st < n" using assms(1) by linarith
      moreover note lt
      moreover have "length (emitted ?st) = n - r + mux_reg ?st"
        using B D(1) lt by (simp add: min_absorb2)
      ultimately show ?thesis using ge by simp
    next
      case False
      then show ?thesis using D(5) n by simp
    qed
  qed
  moreover have "take ?L (map fst xs) = map fst xs" if "r dvd length xs"
    using that by (simp add: mod_eq_0_iff_dvd)
  ultimately show ?thesis
    using pre by auto
qed

theorem updown_roundtrip_witness:
  "emitted (RT_run 4 2 True (RT_reset [(1, False), (2, False), (3, False), (4, True)])
     (replicate 8 (True, True))) = [1, 2, 3, 4]"
  using updown_roundtrip [of 2 4 "[(1, False), (2, False), (3, False), (4, True)]"
     True "replicate 8 (True, True)"]
  by (simp add: fits_def no_early_eop_def All_less_Suc)

text \<open>
  Without the condition on the length the sequence is not reproduced: the words of a
  last, incomplete group that no \<open>eop\<close> flushes stay in the up-converter. With ratio 2
  and the three words 1, 2, 3, none with \<open>eop\<close>, the producer has handed over all three
  words after 12 cycles with producer and consumer ready, and the consumer has received
  1 and 2 only.
\<close>

theorem updown_roundtrip_counterexample:
  "fits 4 [(1, False), (2, False), (3, False)] \<and>
   no_early_eop 2 [(1, False), (2, False), (3, False)] \<and>
   pending (RT_run 4 2 False (RT_reset [(1, False), (2, False), (3, False)])
              (replicate 12 (True, True))) = [] \<and>
   emitted (RT_run 4 2 False (RT_reset [(1, False), (2, False), (3, False)])
              (replicate 12 (True, True))) = [1, 2] \<and>
   emitted (RT_run 4 2 False (RT_reset [(1, False), (2, False), (3, False)])
              (replicate 12 (True, True))) \<noteq> map fst [(1, False), (2, False), (3, False)]"
  by code_simp

end
